theory Spec2Isabelle
  imports Main "HOL-Library.Word"
begin

section \<open>Bytes and native integer encodings\<close>

text \<open>
  The archive is written with \<^verbatim>\<open>out.write((char*)&x, sizeof x)\<close> and read back with
  \<^verbatim>\<open>in.read((char*)&x, sizeof x)\<close>: the object representation of the native integer.
  The model fixes the usual LP64 little-endian layout: \<^verbatim>\<open>int\<close>, \<^verbatim>\<open>unsigned int\<close> and
  \<^verbatim>\<open>boost::uint32_t\<close> are 4 bytes, \<^verbatim>\<open>std::size_t\<close> is 8 bytes.
\<close>

type_synonym byte = "8 word"

fun le_bytes :: "nat \<Rightarrow> nat \<Rightarrow> byte list" where
  "le_bytes 0 x = []"
| "le_bytes (Suc n) x = word_of_nat (x mod 256) # le_bytes n (x div 256)"

fun from_le :: "byte list \<Rightarrow> nat" where
  "from_le [] = 0"
| "from_le (b # bs) = unat b + 256 * from_le bs"

text \<open>
  Every variable that \<^verbatim>\<open>loadHeader\<close> reads into is initialised with 0 first. A read that
  delivers fewer bytes than asked for overwrites only the leading bytes of the variable;
  \<open>zero_filled n bs\<close> is the content of such an \<open>n\<close>-byte variable afterwards.
\<close>

definition zero_filled :: "nat \<Rightarrow> byte list \<Rightarrow> byte list" where
  "zero_filled n bs = take n (bs @ replicate n 0)"

definition int_bytes :: "32 word \<Rightarrow> byte list" where
  "int_bytes x = le_bytes 4 (unat x)"

definition size_bytes :: "64 word \<Rightarrow> byte list" where
  "size_bytes x = le_bytes 8 (unat x)"

definition bytes_int :: "byte list \<Rightarrow> 32 word" where
  "bytes_int bs = word_of_nat (from_le (zero_filled 4 bs))"

definition bytes_size :: "byte list \<Rightarrow> 64 word" where
  "bytes_size bs = word_of_nat (from_le (zero_filled 8 bs))"

section \<open>Streams\<close>

text \<open>
  A \<^verbatim>\<open>std::istream\<close> over a finite sequence of bytes: the bytes not yet extracted and the
  three state flags. \<^verbatim>\<open>good()\<close> holds when no flag is set, \<^verbatim>\<open>fail()\<close> when failbit or
  badbit is.
\<close>

record istream =
  pending :: "byte list"
  eofbit :: bool
  failbit :: bool
  badbit :: bool

definition in_good :: "istream \<Rightarrow> bool" where
  "in_good s \<longleftrightarrow> \<not> eofbit s \<and> \<not> failbit s \<and> \<not> badbit s"

definition in_eof :: "istream \<Rightarrow> bool" where
  "in_eof s \<longleftrightarrow> eofbit s"

definition in_fail :: "istream \<Rightarrow> bool" where
  "in_fail s \<longleftrightarrow> failbit s \<or> badbit s"

text \<open>
  \<^verbatim>\<open>in.read(p, n)\<close>: on a stream that is not good nothing is extracted and failbit is set;
  otherwise \<open>n\<close> bytes are extracted, or, when fewer are left, all of them, and eofbit and
  failbit are set. The result is the bytes stored at \<^verbatim>\<open>p\<close> and the stream afterwards.
\<close>

definition istream_read :: "nat \<Rightarrow> istream \<Rightarrow> byte list \<times> istream" where
  "istream_read n s =
     (if \<not> in_good s then ([], s\<lparr>failbit := True\<rparr>)
      else if n \<le> length (pending s) then (take n (pending s), s\<lparr>pending := drop n (pending s)\<rparr>)
      else (pending s, s\<lparr>pending := [], eofbit := True, failbit := True\<rparr>))"

definition istream_of :: "byte list \<Rightarrow> istream" where
  "istream_of bs = \<lparr>pending = bs, eofbit = False, failbit = False, badbit = False\<rparr>"

text \<open>A \<^verbatim>\<open>std::ostream\<close>: the bytes written so far and whether the stream is good.\<close>

record ostream =
  written :: "byte list"
  out_good :: bool

definition ostream_write :: "byte list \<Rightarrow> ostream \<Rightarrow> ostream" where
  "ostream_write bs s = (if out_good s then s\<lparr>written := written s @ bs\<rparr> else s)"

section \<open>The state space\<close>

text \<open>
  Modelled from the spec: the state space (\<^verbatim>\<open>StateSpace\<close>, \<^verbatim>\<open>StateSampler\<close>) is an external
  collaborator whose code is not part of the sources. It is taken as a parameter: a record
  of the operations the archive calls. \<open>'v\<close> is the content of a state, \<open>'r\<close> the internal
  state of a sampler. \<^verbatim>\<open>computeSignature\<close> is \<^verbatim>\<open>std::vector<int>\<close>,
  \<^verbatim>\<open>getSerializationLength\<close> is \<^verbatim>\<open>unsigned int\<close>.
\<close>

record ('v, 'r) StateSpace =
  getName :: string
  computeSignature :: "32 word list"
  getSerializationLength :: "32 word"
  serialize :: "'v \<Rightarrow> byte list"
  deserialize :: "byte list \<Rightarrow> 'v"
  allocStateSampler :: 'r
  sampleUniform :: "'r \<Rightarrow> 'v \<times> 'r"

text \<open>
  Modelled from the spec: states live in memory owned by the state space. A
  \<^verbatim>\<open>State*\<close> is an address (a \<open>nat\<close>); \<^verbatim>\<open>allocState\<close> hands out the next unused address
  with uninitialised content, \<^verbatim>\<open>freeState\<close> releases an address. The memory records every
  allocation and release in order.
\<close>

datatype 'v cell = Uninit | Val 'v

datatype event = Alloc nat | Free nat

record 'v memory =
  cells :: "nat \<Rightarrow> 'v cell option"
  next_free :: nat
  events :: "event list"

definition allocState :: "'v memory \<Rightarrow> nat \<times> 'v memory" where
  "allocState m =
     (next_free m,
      m\<lparr>cells := (cells m)(next_free m \<mapsto> Uninit),
        next_free := Suc (next_free m),
        events := events m @ [Alloc (next_free m)]\<rparr>)"

definition freeState :: "nat \<Rightarrow> 'v memory \<Rightarrow> 'v memory" where
  "freeState h m = m\<lparr>cells := (cells m)(h := None), events := events m @ [Free h]\<rparr>"

definition put_state :: "nat \<Rightarrow> 'v \<Rightarrow> 'v memory \<Rightarrow> 'v memory" where
  "put_state h v m = m\<lparr>cells := (cells m)(h \<mapsto> Val v)\<rparr>"


section \<open>The archive\<close>

text \<open>
  Undefined behaviour of the C++ is a value of the model: indexing a vector out of range,
  reading or writing past the scratch buffer, dereferencing an address that holds no
  state, and writing through a null scratch buffer.
\<close>

datatype fault = OutOfBounds nat | BufferOverrun | InvalidState nat | NullBuffer

datatype log_entry = Warn string | Error string | Debug string

record Header =
  state_count :: "64 word"
  metadata_size :: "64 word"

text \<open>
  The members \<^verbatim>\<open>space_\<close> and \<^verbatim>\<open>states_\<close> of the class are the fields \<open>m_space\<close> and
  \<open>m_states\<close> (a name cannot end with an underscore here).
\<close>

record ('v, 'r) StateStorage =
  m_space :: "('v, 'r) StateSpace"
  m_states :: "nat list"

definition OMPL_ARCHIVE_MARKER :: "32 word" where
  "OMPL_ARCHIVE_MARKER = 0x4C504D4F"

definition addState :: "nat \<Rightarrow> ('v, 'r) StateStorage \<Rightarrow> ('v, 'r) StateStorage" where
  "addState s st = st\<lparr>m_states := m_states st @ [s]\<rparr>"

fun free_all :: "nat list \<Rightarrow> 'v memory \<Rightarrow> 'v memory" where
  "free_all [] m = m"
| "free_all (h # hs) m = free_all hs (freeState h m)"

definition clear :: "('v, 'r) StateStorage \<Rightarrow> 'v memory \<Rightarrow> ('v, 'r) StateStorage \<times> 'v memory" where
  "clear st m = (st\<lparr>m_states := []\<rparr>, free_all (m_states st) m)"

subsection \<open>Sampler allocation\<close>

datatype exception = Exception "32 word list" string "32 word list"

record ('v, 'r) PrecomputedStateSampler =
  sampler_space :: "('v, 'r) StateSpace"
  sampler_states :: "nat list"

definition allocPrecomputedStateSampler ::
  "('v, 'r) StateSpace \<Rightarrow> 32 word list \<Rightarrow> nat list \<Rightarrow> exception + ('v, 'r) PrecomputedStateSampler" where
  "allocPrecomputedStateSampler space expectedSignature states =
     (let sig = computeSignature space in
      if sig \<noteq> expectedSignature then Inl (Exception expectedSignature (getName space) sig)
      else Inr \<lparr>sampler_space = space, sampler_states = states\<rparr>)"

text \<open>
  \<^verbatim>\<open>boost::bind(&allocPrecomputedStateSampler, _1, sig, &states_)\<close> copies the signature and
  keeps the address of the collection: the allocator reads the collection the archive
  holds when it is invoked. The first argument of the result is that archive.
\<close>

definition getStateSamplerAllocator ::
  "('v, 'r) StateStorage \<Rightarrow> ('v, 'r) StateStorage \<Rightarrow> ('v, 'r) StateSpace
     \<Rightarrow> exception + ('v, 'r) PrecomputedStateSampler" where
  "getStateSamplerAllocator st =
     (let sig = computeSignature (m_space st) in
      (\<lambda>now space. allocPrecomputedStateSampler space sig (m_states now)))"

subsection \<open>Reading the header\<close>

text \<open>
  The loop \<^verbatim>\<open>for (int i = 0 ; in.good() && i < signature_length ; ++i)\<close>. The result is
  \<open>False\<close> when an element differs (the function logs and returns from inside the loop)
  and \<open>True\<close> when the loop ends.
\<close>

function sig_loop :: "32 word list \<Rightarrow> nat \<Rightarrow> int \<Rightarrow> istream \<Rightarrow> fault + (bool \<times> istream)" where
  "sig_loop sig i signature_length inp =
     (if in_good inp \<and> int i < signature_length then
        (let r = istream_read 4 inp; s = bytes_int (fst r) in
         if length sig \<le> i + 1 then Inl (OutOfBounds (i + 1))
         else if s \<noteq> sig ! (i + 1) then Inr (False, snd r)
         else sig_loop sig (i + 1) signature_length (snd r))
      else Inr (True, inp))"
  by pat_completeness auto
termination
  by (relation "measure (\<lambda>(sig, i, n, inp). nat (n - int i))") auto

declare sig_loop.simps [simp del]

text \<open>
  The part of \<^verbatim>\<open>loadHeader\<close> after the signature: the two size fields. The result is the
  header (\<open>None\<close> for \<^verbatim>\<open>return false\<close>), the stream and the messages logged.
\<close>

definition load_counts :: "istream \<Rightarrow> Header option \<times> istream \<times> log_entry list" where
  "load_counts in3 =
     (if in_good in3 then
        (let r4 = istream_read 8 in3; count = bytes_size (fst r4); in4 = snd r4 in
         if in_good in4 then
           (let r5 = istream_read 8 in4; msize = bytes_size (fst r5); in5 = snd r5 in
            if 0 < count \<and> \<not> in_good in5 then
              (None, in5, [Error ''Expected state data. Incorrect file format''])
            else (Some \<lparr>state_count = count, metadata_size = msize\<rparr>, in5, []))
         else (None, in4, [Error ''Expected metadata size. Incorrect file format'']))
      else (None, in3, [Error ''Expected number of states. Incorrect file format'']))"

definition loadHeader ::
  "('v, 'r) StateSpace \<Rightarrow> istream \<Rightarrow> fault + (Header option \<times> istream \<times> log_entry list)" where
  "loadHeader space inp =
     (if \<not> in_good inp \<or> in_eof inp then Inr (None, inp, [Warn ''Unable to load states''])
      else
        (let r1 = istream_read 4 inp; marker = bytes_int (fst r1); in1 = snd r1 in
         if marker \<noteq> OMPL_ARCHIVE_MARKER then
           Inr (None, in1, [Error ''The stored data does not start with the correct header''])
         else
           (let sig = computeSignature space;
                r2 = (if in_good in1 then istream_read 4 in1 else ([], in1));
                signature_length = bytes_int (fst r2);
                in2 = snd r2
            in case sig of
                 [] \<Rightarrow> Inl (OutOfBounds 0)
               | s0 # rest \<Rightarrow>
                   if s0 \<noteq> signature_length then
                     Inr (None, in2, [Error ''State space signatures do not match''])
                   else
                     (case sig_loop sig 0 (sint signature_length) in2 of
                        Inl f \<Rightarrow> Inl f
                      | Inr (False, in3) \<Rightarrow>
                          Inr (None, in3, [Error ''State space signatures do not match''])
                      | Inr (True, in3) \<Rightarrow> Inr (load_counts in3)))))"

subsection \<open>Loading\<close>

text \<open>
  The loop of \<^verbatim>\<open>load\<close>: \<open>stride\<close> is \<^verbatim>\<open>l + header.metadata_size\<close> and \<open>n\<close> is
  \<^verbatim>\<open>header.state_count\<close>, both \<^verbatim>\<open>std::size_t\<close>. \<^verbatim>\<open>deserialize\<close> reads
  \<^verbatim>\<open>getSerializationLength()\<close> bytes at \<^verbatim>\<open>buffer + i * stride\<close>.
\<close>

function deserialize_loop ::
  "byte list \<Rightarrow> 64 word \<Rightarrow> nat \<Rightarrow> nat \<Rightarrow> ('v, 'r) StateStorage \<Rightarrow> 'v memory
     \<Rightarrow> fault + (('v, 'r) StateStorage \<times> 'v memory)" where
  "deserialize_loop buffer stride n i st m =
     (if i < n then
        (let a = allocState m; s = fst a; m1 = snd a;
             off = unat (word_of_nat i * stride);
             l = unat (getSerializationLength (m_space st))
         in if length buffer < off + l then Inl BufferOverrun
            else deserialize_loop buffer stride n (Suc i) (addState s st)
                   (put_state s (deserialize (m_space st) (take l (drop off buffer))) m1))
      else Inr (st, m))"
  by pat_completeness auto
termination
  by (relation "measure (\<lambda>(buffer, stride, n, i, st, m). n - i)") auto

declare deserialize_loop.simps [simp del]

text \<open>
  \<^verbatim>\<open>malloc\<close> is the C library's: whether a request of \<open>n\<close> bytes yields a buffer is
  a parameter \<open>malloc\<close> of \<^verbatim>\<open>load\<close> and \<^verbatim>\<open>store\<close>.

  \<^verbatim>\<open>load(std::istream&)\<close>. The buffer is \<^verbatim>\<open>length ? (char*)malloc(length) : NULL\<close>; when it
  is \<^verbatim>\<open>NULL\<close> (a zero length, or a request that fails) nothing is read and nothing is
  logged. The result is the archive, the memory, the stream and the messages logged.
\<close>

definition load ::
  "(nat \<Rightarrow> bool) \<Rightarrow> ('v, 'r) StateStorage \<Rightarrow> 'v memory \<Rightarrow> istream
     \<Rightarrow> fault + (('v, 'r) StateStorage \<times> 'v memory \<times> istream \<times> log_entry list)" where
  "load malloc st0 m0 inp =
     (let c = clear st0 m0; st = fst c; m = snd c in
      case loadHeader (m_space st) inp of
        Inl f \<Rightarrow> Inl f
      | Inr (None, in1, msgs) \<Rightarrow> Inr (st, m, in1, msgs)
      | Inr (Some header, in1, msgs) \<Rightarrow>
          (let l = getSerializationLength (m_space st);
               stride = ucast l + metadata_size header;
               len = state_count header * stride;
               buffer_allocated = (len \<noteq> 0 \<and> malloc (unat len))
           in if buffer_allocated then
                (let r = istream_read (unat len) in1; buffer = fst r; in2 = snd r in
                 if \<not> in_fail in2 then
                   (case deserialize_loop buffer stride (unat (state_count header)) 0 st m of
                      Inl f \<Rightarrow> Inl f
                    | Inr (st', m') \<Rightarrow>
                        Inr (st', m', in2, msgs @ [Debug ''Deserializing %u states'']))
                 else
                   Inr (st, m, in2,
                        msgs @ [Error ''Unable to read state data. Incorrect file format'']))
              else Inr (st, m, in1, msgs)))"

subsection \<open>Storing\<close>

definition write_at :: "byte list \<Rightarrow> nat \<Rightarrow> byte list \<Rightarrow> byte list" where
  "write_at buffer off bs = take off buffer @ bs @ drop (off + length bs) buffer"

text \<open>
  The loop of \<^verbatim>\<open>store\<close>: \<^verbatim>\<open>serialize(buffer + i * l, states_[i])\<close> writes
  \<^verbatim>\<open>getSerializationLength()\<close> bytes at that offset.
\<close>

function serialize_loop ::
  "('v, 'r) StateStorage \<Rightarrow> 'v memory \<Rightarrow> nat \<Rightarrow> byte list \<Rightarrow> fault + byte list" where
  "serialize_loop st m i buffer =
     (if i < length (m_states st) then
        (let l = getSerializationLength (m_space st);
             off = unat (word_of_nat i * (ucast l :: 64 word))
         in if length buffer < off + unat l then Inl BufferOverrun
            else
              (case cells m (m_states st ! i) of
                 Some (Val v) \<Rightarrow>
                   serialize_loop st m (Suc i) (write_at buffer off (serialize (m_space st) v))
               | _ \<Rightarrow> Inl (InvalidState (m_states st ! i))))
      else Inr buffer)"
  by pat_completeness auto
termination
  by (relation "measure (\<lambda>(st, m, i, buffer). length (m_states st) - i)") auto

declare serialize_loop.simps [simp del]

text \<open>
  \<^verbatim>\<open>store(std::ostream&)\<close>. The scratch buffer comes from \<^verbatim>\<open>malloc\<close> with arbitrary
  content; the model starts it with zeros. The result of \<^verbatim>\<open>malloc\<close> is not tested: when
  a request of a non-zero length fails, the loop writes through the null pointer.
\<close>

definition store ::
  "(nat \<Rightarrow> bool) \<Rightarrow> ('v, 'r) StateStorage \<Rightarrow> 'v memory \<Rightarrow> ostream
     \<Rightarrow> fault + (ostream \<times> log_entry list)" where
  "store malloc st m out =
     (if \<not> out_good out then Inr (out, [Warn ''Unable to store states''])
      else
        (let out1 = ostream_write (int_bytes OMPL_ARCHIVE_MARKER) out;
             sig = computeSignature (m_space st)
         in if sig = [] then Inl (OutOfBounds 0)
            else
              (let out2 = ostream_write (concat (map int_bytes sig)) out1;
                   nr_states = (word_of_nat (length (m_states st)) :: 64 word);
                   out3 = ostream_write (size_bytes nr_states) out2;
                   out4 = ostream_write (size_bytes 0) out3;
                   l = getSerializationLength (m_space st);
                   len = ucast l * (word_of_nat (length (m_states st)) :: 64 word)
               in if len \<noteq> 0 \<and> \<not> malloc (unat len) then Inl NullBuffer
                  else
                    (case serialize_loop st m 0 (replicate (unat len) 0) of
                       Inl f \<Rightarrow> Inl f
                     | Inr buffer \<Rightarrow>
                         Inr (ostream_write buffer out4, [Debug ''Serializing %u states''])))))"

subsection \<open>Generating samples\<close>

text \<open>
  The loop of \<^verbatim>\<open>generateSamples\<close>; \<open>ss\<close> is the state of the sampler obtained from
  \<^verbatim>\<open>allocStateSampler\<close>.
\<close>

function sample_loop ::
  "nat \<Rightarrow> nat \<Rightarrow> 'r \<Rightarrow> ('v, 'r) StateStorage \<Rightarrow> 'v memory \<Rightarrow> ('v, 'r) StateStorage \<times> 'v memory" where
  "sample_loop count i ss st m =
     (if i < count then
        (let a = allocState m; s = fst a; m1 = snd a;
             d = sampleUniform (m_space st) ss
         in sample_loop count (Suc i) (snd d) (addState s st) (put_state s (fst d) m1))
      else (st, m))"
  by pat_completeness auto
termination
  by (relation "measure (\<lambda>(count, i, ss, st, m). count - i)") auto

declare sample_loop.simps [simp del]

definition generateSamples ::
  "32 word \<Rightarrow> ('v, 'r) StateStorage \<Rightarrow> 'v memory \<Rightarrow> ('v, 'r) StateStorage \<times> 'v memory" where
  "generateSamples count st m =
     sample_loop (unat count) 0 (allocStateSampler (m_space st)) st m"

section \<open>Notions used to state the properties\<close>

text \<open>
  \<open>agree xs ys\<close> is the number of leading positions at which two sequences hold the same
  element: the index of the first mismatching element when there is one.
\<close>

fun agree :: "'a list \<Rightarrow> 'a list \<Rightarrow> nat" where
  "agree (x # xs) (y # ys) = (if x = y then Suc (agree xs ys) else 0)"
| "agree xs ys = 0"

text \<open>
  The signature of the data model: element 0 is the number of the elements after it, and
  that number is a non-negative \<^verbatim>\<open>int\<close>.
\<close>

definition wf_signature :: "32 word list \<Rightarrow> bool" where
  "wf_signature sig \<longleftrightarrow>
     sig \<noteq> [] \<and> length sig - 1 < 2 ^ 31 \<and> hd sig = word_of_nat (length sig - 1)"

text \<open>
  The first \<open>k\<close> values a sampler in state \<open>ss\<close> draws with \<^verbatim>\<open>sampleUniform\<close>.
\<close>

fun draws :: "('v, 'r) StateSpace \<Rightarrow> 'r \<Rightarrow> nat \<Rightarrow> 'v list" where
  "draws sp ss 0 = []"
| "draws sp ss (Suc k) = fst (sampleUniform sp ss) # draws sp (snd (sampleUniform sp ss)) k"

text \<open>A logged message that reports a failure: a warning or an error.\<close>

fun is_failure :: "log_entry \<Rightarrow> bool" where
  "is_failure (Debug t) = False"
| "is_failure (Warn t) = True"
| "is_failure (Error t) = True"

section \<open>Concrete inputs\<close>

text \<open>
  A state space whose states are single bytes, serialized as themselves, with a sampler
  that counts upwards; the signature is a parameter. A state space whose states have no
  content and serialize to zero bytes. A memory holding two byte states.
\<close>

definition byte_space :: "32 word list \<Rightarrow> (byte, nat) StateSpace" where
  "byte_space sig =
     \<lparr>getName = ''bytes'', computeSignature = sig, getSerializationLength = 1,
      serialize = (\<lambda>v. [v]), deserialize = (\<lambda>bs. case bs of [] \<Rightarrow> 0 | b # _ \<Rightarrow> b),
      allocStateSampler = 0, sampleUniform = (\<lambda>r. (word_of_nat r, Suc r))\<rparr>"

definition unit_space :: "(unit, unit) StateSpace" where
  "unit_space =
     \<lparr>getName = ''empty'', computeSignature = [0], getSerializationLength = 0,
      serialize = (\<lambda>v. []), deserialize = (\<lambda>bs. ()),
      allocStateSampler = (), sampleUniform = (\<lambda>r. ((), ()))\<rparr>"

definition two_bytes :: "byte memory" where
  "two_bytes = \<lparr>cells = [0 \<mapsto> Val 10, 1 \<mapsto> Val 20], next_free = 2, events = [Alloc 0, Alloc 1]\<rparr>"

definition one_unit :: "unit memory" where
  "one_unit = \<lparr>cells = [0 \<mapsto> Val ()], next_free = 1, events = [Alloc 0]\<rparr>"

text \<open>
  A \<^verbatim>\<open>malloc\<close> that serves every request, and one that serves requests below \<open>2 ^ 47\<close>
  bytes only.
\<close>

definition unlimited :: "nat \<Rightarrow> bool" where
  "unlimited n = True"


definition fresh_out :: ostream where
  "fresh_out = \<lparr>written = [], out_good = True\<rparr>"

section \<open>Encodings and stream reads\<close>

lemma length_le_bytes [simp]: "length (le_bytes n x) = n"
  by (induction n arbitrary: x) simp_all

lemma from_le_le_bytes: "from_le (le_bytes n x) = x mod 256 ^ n"
proof (induction n arbitrary: x)
  case 0
  show ?case by simp
next
  case (Suc n)
  have "unat (word_of_nat (x mod 256) :: byte) = x mod 256"
    by (simp add: unat_of_nat)
  then show ?case
    using Suc [of "x div 256"] by (simp add: mod_mult2_eq)
qed

lemma zero_filled_exact: "length bs = n \<Longrightarrow> zero_filled n bs = bs"
  by (simp add: zero_filled_def)

lemma length_int_bytes [simp]: "length (int_bytes x) = 4"
  by (simp add: int_bytes_def)

lemma length_size_bytes [simp]: "length (size_bytes x) = 8"
  by (simp add: size_bytes_def)

lemma bytes_int_int_bytes [simp]: "bytes_int (int_bytes x) = x"
proof -
  have "unat x < 2 ^ 32" using unsigned_less [of x] by simp
  then have "unat x mod 256 ^ 4 = unat x" by simp
  then show ?thesis
    by (simp add: bytes_int_def int_bytes_def zero_filled_exact from_le_le_bytes)
qed

lemma bytes_size_size_bytes [simp]: "bytes_size (size_bytes x) = x"
proof -
  have "unat x < 2 ^ 64" using unsigned_less [of x] by simp
  then have "unat x mod 256 ^ 8 = unat x" by simp
  then show ?thesis
    by (simp add: bytes_size_def size_bytes_def zero_filled_exact from_le_le_bytes)
qed

lemma read_int_good:
  "in_good inp \<Longrightarrow> pending inp = int_bytes x @ rest \<Longrightarrow>
   istream_read 4 inp = (int_bytes x, inp\<lparr>pending := rest\<rparr>)"
  by (simp add: istream_read_def)

lemma read_size_good:
  "in_good inp \<Longrightarrow> pending inp = size_bytes x @ rest \<Longrightarrow>
   istream_read 8 inp = (size_bytes x, inp\<lparr>pending := rest\<rparr>)"
  by (simp add: istream_read_def)

lemma in_good_pending [simp]: "in_good (inp\<lparr>pending := bs\<rparr>) = in_good inp"
  by (simp add: in_good_def)

lemma sig_loop_archive:
  "in_good inp \<Longrightarrow> pending inp = concat (map int_bytes ys) @ rest \<Longrightarrow>
   len = int (i + length ys) \<Longrightarrow> i + length ys < length sig \<Longrightarrow>
   sig_loop sig i len inp =
     (if ys = take (length ys) (drop (Suc i) sig) then Inr (True, inp\<lparr>pending := rest\<rparr>)
      else Inr (False,
             inp\<lparr>pending := drop (4 * Suc (agree ys (drop (Suc i) sig))) (pending inp)\<rparr>))"
proof (induction ys arbitrary: i inp)
  case Nil
  then show ?case by (subst sig_loop.simps) simp
next
  case (Cons y ys)
  let ?inp' = "inp\<lparr>pending := concat (map int_bytes ys) @ rest\<rparr>"
  have rd: "istream_read 4 inp = (int_bytes y, ?inp')"
    using Cons.prems by (simp add: read_int_good)
  have dr: "drop (Suc i) sig = sig ! Suc i # drop (Suc (Suc i)) sig"
    using Cons.prems by (simp add: Cons_nth_drop_Suc)
  show ?case
  proof (cases "y = sig ! Suc i")
    case False
    then show ?thesis
      using Cons.prems rd dr by (subst sig_loop.simps) (simp add: Let_def)
  next
    case True
    have ih: "sig_loop sig (Suc i) len ?inp' =
       (if ys = take (length ys) (drop (Suc (Suc i)) sig) then Inr (True, ?inp'\<lparr>pending := rest\<rparr>)
        else Inr (False,
               ?inp'\<lparr>pending := drop (4 * Suc (agree ys (drop (Suc (Suc i)) sig))) (pending ?inp')\<rparr>))"
      using Cons.prems by (intro Cons.IH) simp_all
    have "sig_loop sig i len inp = sig_loop sig (Suc i) len ?inp'"
      using Cons.prems rd True by (subst sig_loop.simps) (simp add: Let_def)
    then show ?thesis
      using ih True dr Cons.prems by simp
  qed
qed

section \<open>Decoding the header of a stored archive\<close>

lemma sint_word_of_nat: "n < 2 ^ 31 \<Longrightarrow> sint (word_of_nat n :: 32 word) = int n"
  by (simp add: signed_of_nat signed_take_bit_int_eq_self)

lemma wf_signature_Cons:
  "wf_signature (a # as) \<longleftrightarrow> length as < 2 ^ 31 \<and> a = word_of_nat (length as)"
  by (simp add: wf_signature_def)

lemma wf_signature_same_length:
  assumes "wf_signature (a # as)" and "wf_signature (a # bs)"
  shows "length as = length bs"
proof -
  have "length as < 2 ^ 31" and "a = word_of_nat (length as)"
    using assms(1) by (simp_all add: wf_signature_Cons)
  then have "sint a = int (length as)" by (simp only: sint_word_of_nat)
  moreover have "length bs < 2 ^ 31" and "a = word_of_nat (length bs)"
    using assms(2) by (simp_all add: wf_signature_Cons)
  then have "sint a = int (length bs)" by (simp only: sint_word_of_nat)
  ultimately show ?thesis by simp
qed

lemma load_counts_archive:
  "in_good inp \<Longrightarrow> pending inp = size_bytes n @ size_bytes ms @ payload \<Longrightarrow>
   load_counts inp = (Some \<lparr>state_count = n, metadata_size = ms\<rparr>, inp\<lparr>pending := payload\<rparr>, [])"
  by (simp add: load_counts_def read_size_good Let_def)

lemma loadHeader_archive:
  assumes wfA: "wf_signature sigA" and wfB: "wf_signature (computeSignature sp)"
    and data: "data = int_bytes OMPL_ARCHIVE_MARKER @ concat (map int_bytes sigA) @
                 size_bytes n @ size_bytes ms @ payload"
  shows "loadHeader sp (istream_of data) =
     (if sigA = computeSignature sp then
        Inr (Some \<lparr>state_count = n, metadata_size = ms\<rparr>, istream_of payload, [])
      else Inr (None, istream_of (drop (4 + 4 * Suc (agree sigA (computeSignature sp))) data),
             [Error ''State space signatures do not match'']))"
proof -
  obtain a as where A: "sigA = a # as" using wfA by (cases sigA) (simp_all add: wf_signature_def)
  obtain b bs where B: "computeSignature sp = b # bs"
    using wfB by (cases "computeSignature sp") (simp_all add: wf_signature_def)
  let ?tail = "size_bytes n @ size_bytes ms @ payload"
  let ?in0 = "istream_of data"
  let ?in1 = "istream_of (int_bytes a @ concat (map int_bytes as) @ ?tail)"
  let ?in2 = "istream_of (concat (map int_bytes as) @ ?tail)"
  have g0: "in_good ?in0" "\<not> in_eof ?in0" by (simp_all add: istream_of_def in_good_def in_eof_def)
  have r1: "istream_read 4 ?in0 = (int_bytes OMPL_ARCHIVE_MARKER, ?in1)"
    by (simp add: istream_read_def istream_of_def in_good_def data A)
  have g1: "in_good ?in1" by (simp add: istream_of_def in_good_def)
  have r2: "istream_read 4 ?in1 = (int_bytes a, ?in2)"
    by (simp add: istream_read_def istream_of_def in_good_def)
  have g2: "in_good ?in2" by (simp add: istream_of_def in_good_def)
  have d2: "pending ?in2 = drop 8 data" by (simp add: data A istream_of_def)
  show ?thesis
  proof (cases "a = b")
    case False
    then show ?thesis
      using g0 r1 g1 r2 d2 by (simp add: loadHeader_def A B Let_def istream_of_def)
  next
    case True
    have len: "length as = length bs"
      using wfA wfB wf_signature_same_length unfolding A B True by blast
    have sl: "sint b = int (0 + length as)"
      using wfA unfolding A True by (simp add: wf_signature_Cons sint_word_of_nat)
    have loop: "sig_loop (b # bs) 0 (sint b) ?in2 =
       (if as = take (length as) (drop (Suc 0) (b # bs)) then Inr (True, ?in2\<lparr>pending := ?tail\<rparr>)
        else Inr (False,
               ?in2\<lparr>pending := drop (4 * Suc (agree as (drop (Suc 0) (b # bs)))) (pending ?in2)\<rparr>))"
      by (rule sig_loop_archive [OF g2 _ sl]) (simp_all add: istream_of_def len)
    have cnt: "load_counts (?in2\<lparr>pending := ?tail\<rparr>) =
        (Some \<lparr>state_count = n, metadata_size = ms\<rparr>, istream_of payload, [])"
      by (subst load_counts_archive [where n = n and ms = ms and payload = payload])
         (simp_all add: istream_of_def in_good_def)
    show ?thesis
    proof (cases "as = bs")
      case True
      then show ?thesis
        using g0 r1 g1 r2 loop cnt \<open>a = b\<close>
        by (simp add: loadHeader_def A B Let_def)
    next
      case False
      have "sig_loop (b # bs) 0 (sint b) ?in2 =
          Inr (False, ?in2\<lparr>pending := drop (4 * Suc (agree as bs) + 8) data\<rparr>)"
        using loop False len unfolding d2 drop_drop by simp
      moreover have "?in2\<lparr>pending := drop (4 * Suc (agree as bs) + 8) data\<rparr> =
          istream_of (drop (4 + 4 * Suc (agree sigA (computeSignature sp))) data)"
        by (simp add: istream_of_def A B \<open>a = b\<close> add.commute)
      ultimately show ?thesis
        using g0 r1 g1 r2 False \<open>a = b\<close>
        by (simp add: loadHeader_def A B Let_def)
    qed
  qed
qed

section \<open>The bytes of a stored archive\<close>

lemma agree_sym: "agree xs ys = agree ys xs"
  by (induction xs ys rule: agree.induct) auto

lemma agree_less:
  "length xs = length ys \<Longrightarrow> xs \<noteq> ys \<Longrightarrow> agree xs ys < length xs"
  by (induction xs ys rule: agree.induct) auto

lemma agree_wf_less:
  assumes "wf_signature xs" and "wf_signature ys" and "xs \<noteq> ys"
  shows "agree xs ys < length xs"
proof -
  obtain a as where A: "xs = a # as" using assms(1) by (cases xs) (simp_all add: wf_signature_def)
  obtain b bs where B: "ys = b # bs" using assms(2) by (cases ys) (simp_all add: wf_signature_def)
  show ?thesis
  proof (cases "a = b")
    case False
    then show ?thesis by (simp add: A B)
  next
    case True
    then have "length as = length bs"
      using assms(1,2) wf_signature_same_length unfolding A B by blast
    moreover have "as \<noteq> bs" using assms(3) True by (simp add: A B)
    ultimately have "agree as bs < length as" by (rule agree_less)
    then show ?thesis by (simp add: A B True)
  qed
qed

lemma agree_mismatch:
  "agree xs ys < length xs \<Longrightarrow> agree xs ys < length ys \<Longrightarrow>
   take (agree xs ys) xs = take (agree xs ys) ys \<and> xs ! agree xs ys \<noteq> ys ! agree xs ys"
  by (induction xs ys rule: agree.induct) (auto split: if_splits)

lemma store_written:
  assumes "store ms st m fresh_out = Inr (out, lg)"
  shows "\<exists>payload.
     serialize_loop st m 0
       (replicate (unat (ucast (getSerializationLength (m_space st)) *
                         (word_of_nat (length (m_states st)) :: 64 word))) 0) = Inr payload \<and>
     written out =
       int_bytes OMPL_ARCHIVE_MARKER @ concat (map int_bytes (computeSignature (m_space st))) @
       size_bytes (word_of_nat (length (m_states st))) @ size_bytes 0 @ payload"
  using assms
  by (auto simp: store_def ostream_write_def fresh_out_def Let_def split: if_splits sum.splits
          )

lemma load_header_failed:
  "loadHeader (m_space st) inp = Inr (None, in1, msgs) \<Longrightarrow>
   load ml st m inp = Inr (st\<lparr>m_states := []\<rparr>, free_all (m_states st) m, in1, msgs)"
  by (simp add: load_def clear_def Let_def)

section \<open>The loop of load\<close>

lemma allocState_simps [simp]:
  "fst (allocState m) = next_free m"
  "next_free (snd (allocState m)) = Suc (next_free m)"
  "events (snd (allocState m)) = events m @ [Alloc (next_free m)]"
  "cells (snd (allocState m)) = (cells m)(next_free m \<mapsto> Uninit)"
  by (simp_all add: allocState_def)

lemma put_state_simps [simp]:
  "next_free (put_state h v m) = next_free m"
  "events (put_state h v m) = events m"
  "cells (put_state h v m) = (cells m)(h \<mapsto> Val v)"
  by (simp_all add: put_state_def)

lemma addState_simps [simp]:
  "m_space (addState s st) = m_space st"
  "m_states (addState s st) = m_states st @ [s]"
  by (simp_all add: addState_def)

lemma deserialize_loop_shape:
  "deserialize_loop buffer stride n i st m = Inr (st', m') \<Longrightarrow>
   m_space st' = m_space st \<and>
   m_states st' = m_states st @ [next_free m ..< next_free m + (n - i)] \<and>
   events m' = events m @ map Alloc [next_free m ..< next_free m + (n - i)] \<and>
   next_free m' = next_free m + (n - i)"
proof (induction "n - i" arbitrary: i st m)
  case 0
  then show ?case by (subst (asm) deserialize_loop.simps) simp
next
  case (Suc k)
  let ?l = "unat (getSerializationLength (m_space st))"
  let ?off = "unat (word_of_nat i * stride)"
  let ?st1 = "addState (next_free m) st"
  let ?m1 = "put_state (next_free m) (deserialize (m_space st) (take ?l (drop ?off buffer)))
               (snd (allocState m))"
  have lt: "i < n" using Suc.hyps(2) by simp
  have rec: "deserialize_loop buffer stride n (Suc i) ?st1 ?m1 = Inr (st', m')"
    using Suc.prems lt
    by (subst (asm) deserialize_loop.simps) (simp add: Let_def split: if_splits)
  have k: "k = n - Suc i" using Suc.hyps(2) by simp
  have up: "[next_free m ..< next_free m + (n - i)] =
            next_free m # [Suc (next_free m) ..< Suc (next_free m) + (n - Suc i)]"
    using lt by (simp add: upt_conv_Cons Suc_diff_Suc)
  show ?case
    using Suc.hyps(1) [OF k rec] lt unfolding up by simp
qed


section \<open>Signature checks\<close>

text \<open>
  C3. A stream holding an archive stored for a state space with signature \<open>A\<close>, loaded into
  an archive bound to a state space with a different signature \<open>B\<close> (both signatures as the
  data model has them): \<^verbatim>\<open>load\<close> logs the signature mismatch and nothing else, the
  archive ends with zero states and no state is allocated. The stream is left right after
  the first signature element that differs, at index \<open>k\<close>: the marker and \<open>k + 1\<close> integers
  have been read, nothing after them.
\<close>

theorem load_signature_mismatch:
  assumes "wf_signature (computeSignature (m_space stA))"
    and "wf_signature (computeSignature (m_space stB))"
    and "computeSignature (m_space stA) \<noteq> computeSignature (m_space stB)"
    and "store ms stA mA fresh_out = Inr (out, lg)"
  shows "\<exists>k. k = agree (computeSignature (m_space stA)) (computeSignature (m_space stB)) \<and>
           k < length (computeSignature (m_space stA)) \<and>
           k < length (computeSignature (m_space stB)) \<and>
           computeSignature (m_space stA) ! k \<noteq> computeSignature (m_space stB) ! k \<and>
           load ml stB mB (istream_of (written out)) =
             Inr (stB\<lparr>m_states := []\<rparr>, free_all (m_states stB) mB,
                  istream_of (drop (4 + 4 * Suc k) (written out)),
                  [Error ''State space signatures do not match''])"
proof -
  let ?A = "computeSignature (m_space stA)" and ?B = "computeSignature (m_space stB)"
  obtain payload where w: "written out =
       int_bytes OMPL_ARCHIVE_MARKER @ concat (map int_bytes ?A) @
       size_bytes (word_of_nat (length (m_states stA))) @ size_bytes 0 @ payload"
    using store_written [OF assms(4)] by blast
  have kA: "agree ?A ?B < length ?A" using assms(1-3) by (rule agree_wf_less)
  have "agree ?B ?A < length ?B" using assms(2,1) assms(3) [symmetric] by (rule agree_wf_less)
  then have kB: "agree ?A ?B < length ?B" by (simp only: agree_sym [of ?B ?A])
  have "loadHeader (m_space stB) (istream_of (written out)) =
      Inr (None, istream_of (drop (4 + 4 * Suc (agree ?A ?B)) (written out)),
           [Error ''State space signatures do not match''])"
    using loadHeader_archive [OF assms(1,2) w] assms(3) by simp
  then show ?thesis
    using kA kB agree_mismatch [OF kA kB] by (simp add: load_header_failed)
qed

theorem load_signature_mismatch_witness:
  "wf_signature [1, 7] \<and> wf_signature [1, 9] \<and>
   (\<exists>out lg.
      store unlimited \<lparr>m_space = byte_space [1, 7], m_states = [0, 1]\<rparr> two_bytes fresh_out = Inr (out, lg) \<and>
      load unlimited \<lparr>m_space = byte_space [1, 9], m_states = [0]\<rparr> two_bytes (istream_of (written out)) =
        Inr (\<lparr>m_space = byte_space [1, 9], m_states = []\<rparr>, free_all [0] two_bytes,
             istream_of (drop 12 (written out)),
             [Error ''State space signatures do not match'']))"
proof -
  have "\<exists>out lg. store unlimited \<lparr>m_space = byte_space [1, 7], m_states = [0, 1]\<rparr> two_bytes fresh_out = Inr (out, lg)"
    by (simp add: store_def byte_space_def two_bytes_def fresh_out_def ostream_write_def Let_def
          serialize_loop.simps write_at_def unlimited_def)
  then obtain out lg where
    s: "store unlimited \<lparr>m_space = byte_space [1, 7], m_states = [0, 1]\<rparr> two_bytes fresh_out = Inr (out, lg)"
    by (elim exE)
  have w: "wf_signature [1, 7]" "wf_signature [1, 9]"
    by (simp_all add: wf_signature_def)
  show ?thesis
    using load_signature_mismatch
      [where stA = "\<lparr>m_space = byte_space [1, 7], m_states = [0, 1]\<rparr>"
         and stB = "\<lparr>m_space = byte_space [1, 9], m_states = [0]\<rparr>"
         and ms = unlimited and mA = two_bytes and out = out and lg = lg
         and ml = unlimited and mB = two_bytes] s w
    by (simp add: byte_space_def)
qed

text \<open>
  C4. The sampler allocator obtained from an archive, invoked with a state space: when the
  signature of that space differs from the one captured when the allocator was obtained,
  the call throws and returns no sampler; when it is equal, the call returns a sampler over
  the collection the archive holds at that moment.
\<close>

theorem sampler_allocator_checks_signature:
  "(computeSignature space \<noteq> computeSignature (m_space st) \<longrightarrow>
      (\<exists>e. getStateSamplerAllocator st now space = Inl e)) \<and>
   (computeSignature space = computeSignature (m_space st) \<longrightarrow>
      getStateSamplerAllocator st now space =
        Inr \<lparr>sampler_space = space, sampler_states = m_states now\<rparr>)"
  by (simp add: getStateSamplerAllocator_def allocPrecomputedStateSampler_def Let_def)

theorem sampler_allocator_checks_signature_witness:
  "(\<exists>e. getStateSamplerAllocator \<lparr>m_space = byte_space [1, 7], m_states = [0, 1]\<rparr>
          \<lparr>m_space = byte_space [1, 7], m_states = [0, 1]\<rparr> (byte_space [1, 9]) = Inl e) \<and>
   getStateSamplerAllocator \<lparr>m_space = byte_space [1, 7], m_states = [0]\<rparr>
     \<lparr>m_space = byte_space [1, 7], m_states = [0, 1]\<rparr> (byte_space [1, 7]) =
     Inr \<lparr>sampler_space = byte_space [1, 7], sampler_states = [0, 1]\<rparr>"
  using sampler_allocator_checks_signature
      [of "byte_space [1, 9]" "\<lparr>m_space = byte_space [1, 7], m_states = [0, 1]\<rparr>"
          "\<lparr>m_space = byte_space [1, 7], m_states = [0, 1]\<rparr>"]
    sampler_allocator_checks_signature
      [of "byte_space [1, 7]" "\<lparr>m_space = byte_space [1, 7], m_states = [0]\<rparr>"
          "\<lparr>m_space = byte_space [1, 7], m_states = [0, 1]\<rparr>"]
  by (simp add: byte_space_def)

section \<open>The loop of generateSamples and the faults of the signature loop\<close>

lemma length_draws [simp]: "length (draws sp ss k) = k"
  by (induction k arbitrary: ss) simp_all

lemma sample_loop_result:
  "m_space (fst (sample_loop count i ss st m)) = m_space st \<and>
   m_states (fst (sample_loop count i ss st m)) =
     m_states st @ [next_free m ..< next_free m + (count - i)] \<and>
   events (snd (sample_loop count i ss st m)) =
     events m @ map Alloc [next_free m ..< next_free m + (count - i)] \<and>
   (\<forall>h<next_free m. cells (snd (sample_loop count i ss st m)) h = cells m h) \<and>
   (\<forall>j<count - i. cells (snd (sample_loop count i ss st m)) (next_free m + j) =
      Some (Val (draws (m_space st) ss (count - i) ! j)))"
proof (induction "count - i" arbitrary: i ss st m)
  case 0
  then have "sample_loop count i ss st m = (st, m)"
    by (subst sample_loop.simps) simp
  then show ?case using 0 by simp
next
  case (Suc k)
  let ?d = "sampleUniform (m_space st) ss"
  let ?st1 = "addState (next_free m) st"
  let ?m1 = "put_state (next_free m) (fst ?d) (snd (allocState m))"
  let ?r = "sample_loop count (Suc i) (snd ?d) ?st1 ?m1"
  have lt: "i < count" using Suc.hyps(2) by simp
  have step: "sample_loop count i ss st m = ?r"
    using lt by (subst sample_loop.simps) (simp add: Let_def)
  have k: "k = count - Suc i" using Suc.hyps(2) by simp
  have cnt: "count - i = Suc (count - Suc i)" using lt by simp
  note ih = Suc.hyps(1) [OF k, of "snd ?d" ?st1 ?m1]
  have up: "[next_free m ..< next_free m + (count - i)] =
            next_free m # [Suc (next_free m) ..< Suc (next_free m) + (count - Suc i)]"
    using lt by (simp add: upt_conv_Cons Suc_diff_Suc)
  have sp: "m_space (fst ?r) = m_space st" using ih by simp
  have sts: "m_states (fst ?r) = m_states st @ [next_free m ..< next_free m + (count - i)]"
    using ih unfolding up by simp
  have ev: "events (snd ?r) = events m @ map Alloc [next_free m ..< next_free m + (count - i)]"
    using ih unfolding up by simp
  have frame: "\<forall>h<Suc (next_free m). cells (snd ?r) h = cells ?m1 h"
    using ih by simp
  have old: "\<forall>h<next_free m. cells (snd ?r) h = cells m h"
    using frame by simp
  have new: "cells (snd ?r) (next_free m + j) =
      Some (Val (draws (m_space st) ss (count - i) ! j))" if "j < count - i" for j
  proof (cases j)
    case 0
    then show ?thesis using frame by (simp add: cnt)
  next
    case (Suc j')
    then have "j' < count - Suc i" using that by simp
    moreover have "\<forall>j<count - Suc i. cells (snd ?r) (Suc (next_free m) + j) =
      Some (Val (draws (m_space st) (snd ?d) (count - Suc i) ! j))"
      using ih by simp
    ultimately show ?thesis using Suc by (simp add: cnt)
  qed
  show ?case
    unfolding step by (intro conjI allI impI sp sts ev old [rule_format] new)
qed

lemma sig_loop_fault: "sig_loop sig i len inp = Inl f \<Longrightarrow> \<exists>j. f = OutOfBounds (Suc j)"
proof (induction sig i len inp rule: sig_loop.induct)
  case (1 sig i signature_length inp)
  show ?case
  proof (cases "in_good inp \<and> int i < signature_length")
    case False
    then show ?thesis using "1.prems" by (subst (asm) sig_loop.simps) (simp split: if_splits)
  next
    case True
    show ?thesis
    proof (cases "length sig \<le> i + 1")
      case over: True
      then show ?thesis
        using "1.prems" True by (subst (asm) sig_loop.simps) (auto simp: Let_def)
    next
      case fits: False
      show ?thesis
      proof (cases "bytes_int (fst (istream_read 4 inp)) \<noteq> sig ! (i + 1)")
        case True
        then show ?thesis
          using "1.prems" \<open>in_good inp \<and> int i < signature_length\<close> fits
          by (subst (asm) sig_loop.simps) (simp add: Let_def)
      next
        case False
        then have "sig_loop sig (i + 1) signature_length (snd (istream_read 4 inp)) = Inl f"
          using "1.prems" \<open>in_good inp \<and> int i < signature_length\<close> fits
          by (subst (asm) sig_loop.simps) (simp add: Let_def)
        then show ?thesis
          using "1.IH" [OF \<open>in_good inp \<and> int i < signature_length\<close> refl refl] fits False
          by simp
      qed
    qed
  qed
qed

lemma loadHeader_after_marker:
  assumes "in_good inp"
    and "bytes_int (fst (istream_read 4 inp)) = OMPL_ARCHIVE_MARKER"
    and "computeSignature sp = s0 # rest"
    and "in1 = snd (istream_read 4 inp)"
    and "r2 = (if in_good in1 then istream_read 4 in1 else ([], in1))"
  shows "loadHeader sp inp =
     (if s0 \<noteq> bytes_int (fst r2) then
        Inr (None, snd r2, [Error ''State space signatures do not match''])
      else
        (case sig_loop (s0 # rest) 0 (sint (bytes_int (fst r2))) (snd r2) of
           Inl f \<Rightarrow> Inl f
         | Inr (False, in3) \<Rightarrow> Inr (None, in3, [Error ''State space signatures do not match''])
         | Inr (True, in3) \<Rightarrow> Inr (load_counts in3)))"
  using assms by (simp add: loadHeader_def in_good_def in_eof_def Let_def)

section \<open>Sampling and the first signature element\<close>

text \<open>
  C9. \<^verbatim>\<open>generateSamples(k)\<close> on an archive holding \<open>n\<close> states leaves it with \<open>n + k\<close>
  states: the first \<open>n\<close> entries are the old ones, the \<open>k\<close> entries after them are newly
  allocated states in the order of generation, state \<open>j\<close> holding the \<open>j\<close>-th draw of the
  sampler obtained from the state space. States that existed before keep their content.
\<close>

theorem generateSamples_appends:
  "m_space (fst (generateSamples k st m)) = m_space st \<and>
   length (m_states (fst (generateSamples k st m))) = length (m_states st) + unat k \<and>
   take (length (m_states st)) (m_states (fst (generateSamples k st m))) = m_states st \<and>
   drop (length (m_states st)) (m_states (fst (generateSamples k st m))) =
     [next_free m ..< next_free m + unat k] \<and>
   map (cells (snd (generateSamples k st m))) [next_free m ..< next_free m + unat k] =
     map (\<lambda>v. Some (Val v)) (draws (m_space st) (allocStateSampler (m_space st)) (unat k)) \<and>
   (\<forall>h<next_free m. cells (snd (generateSamples k st m)) h = cells m h)"
proof -
  let ?r = "sample_loop (unat k) 0 (allocStateSampler (m_space st)) st m"
  note res = sample_loop_result [of "unat k" 0 "allocStateSampler (m_space st)" st m]
  have sts: "m_states (fst ?r) = m_states st @ [next_free m ..< next_free m + unat k]"
    using res by simp
  have new: "\<forall>j<unat k. cells (snd ?r) (next_free m + j) =
      Some (Val (draws (m_space st) (allocStateSampler (m_space st)) (unat k) ! j))"
    using res by simp
  have "map (cells (snd ?r)) [next_free m ..< next_free m + unat k] =
     map (\<lambda>v. Some (Val v)) (draws (m_space st) (allocStateSampler (m_space st)) (unat k))"
    by (rule nth_equalityI) (simp_all add: new)
  moreover have "m_space (fst ?r) = m_space st"
    and "\<forall>h<next_free m. cells (snd ?r) h = cells m h"
    using res by simp_all
  ultimately show ?thesis
    unfolding generateSamples_def using sts by simp
qed

theorem generateSamples_appends_witness:
  "take 2 (m_states (fst (generateSamples 2 \<lparr>m_space = byte_space [1, 7], m_states = [0, 1]\<rparr> two_bytes)))
     = [0, 1] \<and>
   drop 2 (m_states (fst (generateSamples 2 \<lparr>m_space = byte_space [1, 7], m_states = [0, 1]\<rparr> two_bytes)))
     = [2, 3] \<and>
   map (cells (snd (generateSamples 2 \<lparr>m_space = byte_space [1, 7], m_states = [0, 1]\<rparr> two_bytes)))
     [2, 3] = [Some (Val 0), Some (Val 1)] \<and>
   cells (snd (generateSamples 2 \<lparr>m_space = byte_space [1, 7], m_states = [0, 1]\<rparr> two_bytes)) 1
     = Some (Val 20)"
proof -
  let ?st = "\<lparr>m_space = byte_space [1, 7], m_states = [0, 1]\<rparr>"
  let ?g = "generateSamples 2 ?st two_bytes"
  note t = generateSamples_appends [of 2 ?st two_bytes]
  have n: "length [0, 1 :: nat] = 2" "next_free two_bytes = 2" "unat (2 :: 32 word) = 2"
    by (simp_all add: two_bytes_def)
  have sp: "m_space ?st = byte_space [1, 7]" "m_states ?st = [0, 1]"
    "allocStateSampler (byte_space [1, 7]) = 0"
    by (simp_all add: byte_space_def)
  have d: "draws (byte_space [1, 7]) 0 2 = [0, 1]"
    by (simp add: numeral_2_eq_2 byte_space_def)
  have u: "[2 ..< 2 + 2] = [2, 3 :: nat]"
    by (simp add: upt_rec)
  have c1: "take 2 (m_states (fst ?g)) = [0, 1]"
    using t [THEN conjunct2, THEN conjunct2, THEN conjunct1] unfolding sp n .
  have c2: "drop 2 (m_states (fst ?g)) = [2, 3]"
    using t [THEN conjunct2, THEN conjunct2, THEN conjunct2, THEN conjunct1] unfolding sp n u .
  have c3: "map (cells (snd ?g)) [2, 3] = map (\<lambda>v. Some (Val v)) [0, 1]"
    using t [THEN conjunct2, THEN conjunct2, THEN conjunct2, THEN conjunct2, THEN conjunct1]
    unfolding sp n u d .
  have "\<forall>h<2. cells (snd ?g) h = cells two_bytes h"
    using t [THEN conjunct2, THEN conjunct2, THEN conjunct2, THEN conjunct2, THEN conjunct2]
    unfolding n .
  then have "cells (snd ?g) 1 = cells two_bytes 1" by simp
  then have c4: "cells (snd ?g) 1 = Some (Val 20)" by (simp add: two_bytes_def)
  show ?thesis
    using c1 c2 c3 c4 by simp
qed

text \<open>
  C10. Once the marker has been read and matches, \<^verbatim>\<open>loadHeader\<close> evaluates \<^verbatim>\<open>sig[0]\<close>
  whatever the rest of the stream is. The access is out of bounds exactly when
  \<^verbatim>\<open>computeSignature\<close> yields the empty sequence.
\<close>

theorem loadHeader_signature_element_0:
  assumes "in_good inp"
    and "bytes_int (fst (istream_read 4 inp)) = OMPL_ARCHIVE_MARKER"
  shows "loadHeader sp inp = Inl (OutOfBounds 0) \<longleftrightarrow> computeSignature sp = []"
proof (cases "computeSignature sp")
  case Nil
  then show ?thesis
    using assms by (simp add: loadHeader_def in_good_def in_eof_def Let_def)
next
  case (Cons s0 rest)
  define in1 where "in1 = snd (istream_read 4 inp)"
  define r2 where "r2 = (if in_good in1 then istream_read 4 in1 else ([], in1))"
  note eq = loadHeader_after_marker [OF assms Cons in1_def r2_def]
  have "loadHeader sp inp \<noteq> Inl (OutOfBounds 0)"
  proof (cases "s0 \<noteq> bytes_int (fst r2)")
    case True
    then show ?thesis unfolding eq by simp
  next
    case False
    show ?thesis
    proof (cases "sig_loop (s0 # rest) 0 (sint (bytes_int (fst r2))) (snd r2)")
      case (Inl f)
      then obtain j where "f = OutOfBounds (Suc j)" using sig_loop_fault by blast
      then show ?thesis unfolding eq using False Inl by simp
    next
      case (Inr p)
      then show ?thesis unfolding eq using False by (cases p) (simp split: bool.splits)
    qed
  qed
  then show ?thesis using Cons by simp
qed

theorem loadHeader_signature_element_0_witness:
  "loadHeader (byte_space []) (istream_of (int_bytes OMPL_ARCHIVE_MARKER)) = Inl (OutOfBounds 0) \<and>
   loadHeader (byte_space [0]) (istream_of (int_bytes OMPL_ARCHIVE_MARKER)) \<noteq> Inl (OutOfBounds 0)"
proof -
  have g: "in_good (istream_of (int_bytes OMPL_ARCHIVE_MARKER))"
    by (simp add: istream_of_def in_good_def)
  have r: "bytes_int (fst (istream_read 4 (istream_of (int_bytes OMPL_ARCHIVE_MARKER)))) =
           OMPL_ARCHIVE_MARKER"
    by (simp add: istream_read_def istream_of_def in_good_def)
  show ?thesis
    using loadHeader_signature_element_0 [OF g r, of "byte_space []"]
      loadHeader_signature_element_0 [OF g r, of "byte_space [0]"]
    by (simp add: byte_space_def)
qed

section \<open>Accepted headers and the steps of load\<close>

lemma load_counts_Some:
  "load_counts in3 = (Some h, in1, msgs) \<Longrightarrow>
   msgs = [] \<and> in_good in3 \<and> in_good (snd (istream_read 8 in3)) \<and>
   h = \<lparr>state_count = bytes_size (fst (istream_read 8 in3)),
        metadata_size = bytes_size (fst (istream_read 8 (snd (istream_read 8 in3))))\<rparr> \<and>
   in1 = snd (istream_read 8 (snd (istream_read 8 in3))) \<and>
   (0 < state_count h \<longrightarrow> in_good in1)"
  by (auto simp: load_counts_def Let_def split: if_splits)



lemma events_free_all [simp]: "events (free_all hs m) = events m @ map Free hs"
  by (induction hs arbitrary: m) (simp_all add: freeState_def)

lemma next_free_free_all [simp]: "next_free (free_all hs m) = next_free m"
  by (induction hs arbitrary: m) (simp_all add: freeState_def)

lemma load_header_ok:
  assumes "loadHeader (m_space st) inp = Inr (Some h, in1, hm)"
    and "stride = ucast (getSerializationLength (m_space st)) + metadata_size h"
    and "len = state_count h * stride"
    and "r = istream_read (unat len) in1"
  shows "load ml st m inp =
     (if len = 0 \<or> \<not> ml (unat len) then
        Inr (st\<lparr>m_states := []\<rparr>, free_all (m_states st) m, in1, hm)
      else if \<not> in_fail (snd r) then
        (case deserialize_loop (fst r) stride (unat (state_count h)) 0 (st\<lparr>m_states := []\<rparr>)
                (free_all (m_states st) m) of
           Inl f \<Rightarrow> Inl f
         | Inr (st', m') \<Rightarrow> Inr (st', m', snd r, hm @ [Debug ''Deserializing %u states'']))
      else Inr (st\<lparr>m_states := []\<rparr>, free_all (m_states st) m, snd r,
                hm @ [Error ''Unable to read state data. Incorrect file format'']))"
  using assms(1) unfolding assms(2,3,4) by (auto simp: load_def clear_def Let_def)

section \<open>Truncated payloads and the replaced collection\<close>




lemma load_replaces_collection_aux:
  assumes "load ml st m inp = Inr (st', m', in', msgs)"
    and "loadHeader (m_space st) inp = Inr (Some h, in1, hm)"
    and "\<not> list_ex is_failure msgs"
    and "len = state_count h * (ucast (getSerializationLength (m_space st)) + metadata_size h)"
  shows "(state_count h = 0 \<or> (len \<noteq> 0 \<and> ml (unat len))
            \<longrightarrow> length (m_states st') = unat (state_count h)) \<and>
         (len = 0 \<or> \<not> ml (unat len) \<longrightarrow> m_states st' = []) \<and>
         events m' = events m @ map Free (m_states st) @ map Alloc (m_states st')"
proof -
  define stride where "stride = ucast (getSerializationLength (m_space st)) + metadata_size h"
  have len: "len = state_count h * stride" by (simp add: assms(4) stride_def)
  define r where "r = istream_read (unat len) in1"
  define st0 where "st0 = st\<lparr>m_states := []\<rparr>"
  define m0 where "m0 = free_all (m_states st) m"
  note eq = load_header_ok [OF assms(2) stride_def len r_def, of ml m, folded st0_def m0_def]
  show ?thesis
  proof (cases "len = 0 \<or> \<not> ml (unat len)")
    case True
    then have "st' = st0" "m' = m0"
      using assms(1) unfolding eq by simp_all
    then show ?thesis
      using True by (auto simp: st0_def m0_def len stride_def)
  next
    case False
    have nf: "\<not> in_fail (snd r)"
    proof
      assume "in_fail (snd r)"
      then have "msgs = hm @ [Error ''Unable to read state data. Incorrect file format'']"
        using assms(1) False unfolding eq by simp
      then show False using assms(3) by simp
    qed
    have "deserialize_loop (fst r) stride (unat (state_count h)) 0 st0 m0 = Inr (st', m')"
      using assms(1) False nf unfolding eq by (simp split: sum.splits prod.splits)
    from deserialize_loop_shape [OF this]
    have "m_states st' = [next_free m0 ..< next_free m0 + unat (state_count h)]"
      and "events m' = events m0 @ map Alloc [next_free m0 ..< next_free m0 + unat (state_count h)]"
      by (simp_all add: st0_def)
    then show ?thesis using False by (simp add: m0_def)
  qed
qed

text \<open>
  C2, as the code has it. After a \<^verbatim>\<open>load\<close> that decoded the header and logged no warning
  or error, the collection holds exactly \<^verbatim>\<open>state_count\<close> states provided
  \<^verbatim>\<open>state_count\<close> is zero, or the payload length \<^verbatim>\<open>state_count * (l + metadata_size)\<close>
  computed by \<^verbatim>\<open>load\<close> is not zero and \<^verbatim>\<open>malloc\<close> yields the scratch buffer of that
  length. A zero-length payload or a failed \<^verbatim>\<open>malloc\<close> skips the read and yields zero
  states. In every case the states held before are all freed before any state is
  allocated, and the collection afterwards consists of the newly allocated states only.
\<close>

theorem load_replaces_collection:
  assumes "load ml st m inp = Inr (st', m', in', msgs)"
    and "loadHeader (m_space st) inp = Inr (Some h, in1, hm)"
    and "\<not> list_ex is_failure msgs"
  shows "(state_count h = 0 \<or>
          (state_count h * (ucast (getSerializationLength (m_space st)) + metadata_size h) \<noteq> 0 \<and>
           ml (unat (state_count h *
                     (ucast (getSerializationLength (m_space st)) + metadata_size h))))
            \<longrightarrow> length (m_states st') = unat (state_count h)) \<and>
         (state_count h * (ucast (getSerializationLength (m_space st)) + metadata_size h) = 0 \<or>
          \<not> ml (unat (state_count h *
                       (ucast (getSerializationLength (m_space st)) + metadata_size h)))
            \<longrightarrow> m_states st' = []) \<and>
         events m' = events m @ map Free (m_states st) @ map Alloc (m_states st')"
proof -
  define len where
    "len = state_count h * (ucast (getSerializationLength (m_space st)) + metadata_size h)"
  have "(state_count h = 0 \<or> (len \<noteq> 0 \<and> ml (unat len))
            \<longrightarrow> length (m_states st') = unat (state_count h)) \<and>
         (len = 0 \<or> \<not> ml (unat len) \<longrightarrow> m_states st' = []) \<and>
         events m' = events m @ map Free (m_states st) @ map Alloc (m_states st')"
    using assms(1-3) len_def by (rule load_replaces_collection_aux)
  then show ?thesis unfolding len_def .
qed

theorem load_replaces_collection_witness:
  "\<exists>st' m' in'.
     load unlimited \<lparr>m_space = byte_space [1, 7], m_states = [0, 1]\<rparr> two_bytes
       (istream_of (int_bytes OMPL_ARCHIVE_MARKER @ concat (map int_bytes [1, 7]) @
                    size_bytes 1 @ size_bytes 0 @ [30])) =
       Inr (st', m', in', [Debug ''Deserializing %u states'']) \<and>
     m_states st' = [2] \<and> length (m_states st') = unat (1 :: 64 word) \<and>
     events m' = [Alloc 0, Alloc 1, Free 0, Free 1, Alloc 2]"
proof -
  let ?st = "\<lparr>m_space = byte_space [1, 7], m_states = [0, 1]\<rparr>"
  let ?inp = "istream_of (int_bytes OMPL_ARCHIVE_MARKER @ concat (map int_bytes [1, 7]) @
                    size_bytes 1 @ size_bytes 0 @ [30])"
  let ?h = "\<lparr>state_count = 1, metadata_size = 0\<rparr>"
  have w: "wf_signature [1, 7]" "wf_signature (computeSignature (byte_space [1, 7]))"
    by (simp_all add: wf_signature_def byte_space_def)
  have "loadHeader (byte_space [1, 7]) ?inp = Inr (Some ?h, istream_of [30], [])"
    using loadHeader_archive [OF w refl, of 1 0 "[30]"] by (simp add: byte_space_def)
  then have h: "loadHeader (m_space ?st) ?inp = Inr (Some ?h, istream_of [30], [])"
    by simp
  have "\<exists>st' m' in'. load unlimited ?st two_bytes ?inp =
          Inr (st', m', in', [Debug ''Deserializing %u states'']) \<and> m_states st' = [2]"
    using load_header_ok [OF h refl refl refl, of unlimited two_bytes]
    by (simp add: byte_space_def two_bytes_def istream_of_def istream_read_def in_good_def
          in_fail_def deserialize_loop.simps Let_def freeState_def unlimited_def)
  then obtain st' m' in' where
    l: "load unlimited ?st two_bytes ?inp = Inr (st', m', in', [Debug ''Deserializing %u states''])"
    and s: "m_states st' = [2]"
    by blast
  have f: "\<not> list_ex is_failure [Debug ''Deserializing %u states'']" by simp
  have len: "state_count ?h * (ucast (getSerializationLength (m_space ?st)) + metadata_size ?h)
             = 1"
    by (simp add: byte_space_def)
  note t = load_replaces_collection [OF l h f, unfolded len]
  have n: "length (m_states st') = unat (1 :: 64 word)"
    using t [THEN conjunct1] by (simp add: unlimited_def)
  have "events m' = events two_bytes @ map Free (m_states ?st) @ map Alloc (m_states st')"
    using t [THEN conjunct2, THEN conjunct2] .
  then have "events m' = [Alloc 0, Alloc 1, Free 0, Free 1, Alloc 2]"
    by (simp add: s two_bytes_def)
  then show ?thesis using l s n by blast
qed

text \<open>
  The zero-length payload. For a state space whose states serialize to zero bytes and a
  header with a \<^verbatim>\<open>state_count\<close> of 2, \<^verbatim>\<open>loadHeader\<close> accepts the header and \<^verbatim>\<open>load\<close>
  returns with nothing logged and an empty collection: its size is 0, not 2.
\<close>

theorem load_zero_length_counterexample:
  "loadHeader unit_space
     (istream_of (int_bytes OMPL_ARCHIVE_MARKER @ concat (map int_bytes [0]) @
                  size_bytes 2 @ size_bytes 0)) =
     Inr (Some \<lparr>state_count = 2, metadata_size = 0\<rparr>, istream_of [], []) \<and>
   load unlimited \<lparr>m_space = unit_space, m_states = []\<rparr> one_unit
     (istream_of (int_bytes OMPL_ARCHIVE_MARKER @ concat (map int_bytes [0]) @
                  size_bytes 2 @ size_bytes 0)) =
     Inr (\<lparr>m_space = unit_space, m_states = []\<rparr>, one_unit, istream_of [], [])"
proof -
  have w: "wf_signature [0]" "wf_signature (computeSignature unit_space)"
    by (simp_all add: wf_signature_def unit_space_def)
  have h: "loadHeader unit_space
     (istream_of (int_bytes OMPL_ARCHIVE_MARKER @ concat (map int_bytes [0]) @
                  size_bytes 2 @ size_bytes 0 @ [])) =
     Inr (Some \<lparr>state_count = 2, metadata_size = 0\<rparr>, istream_of [], [])"
    using loadHeader_archive [OF w refl, of 2 0 "[]"] by (simp add: unit_space_def)
  then have h': "loadHeader (m_space \<lparr>m_space = unit_space, m_states = []\<rparr>)
     (istream_of (int_bytes OMPL_ARCHIVE_MARKER @ concat (map int_bytes [0]) @
                  size_bytes 2 @ size_bytes 0)) =
     Inr (Some \<lparr>state_count = 2, metadata_size = 0\<rparr>, istream_of [], [])"
    by simp
  show ?thesis
    using h load_header_ok [OF h' refl refl refl, of unlimited one_unit]
    by (simp add: unit_space_def)
qed

section \<open>Offsets in the scratch buffer and the loop of store\<close>

lemma unat_ucast_length [simp]: "unat (ucast (l :: 32 word) :: 64 word) = unat l"
proof -
  have "unat l < 2 ^ 32" using unsigned_less [of l] by simp
  then have "unat l < 2 ^ 64" by simp
  then show ?thesis
    by (simp only: unsigned_ucast_eq take_bit_nat_eq_self len_of_numeral_defs
          numeral_plus_numeral mult_numeral_1 numeral_times_numeral semiring_norm)
qed








section \<open>Storing and loading back\<close>




section \<open>Round trip and the two signature checks\<close>

lemma load_space:
  assumes "load ml st m inp = Inr (st', m', in', msgs)"
  shows "m_space st' = m_space st"
proof (cases "loadHeader (m_space st) inp")
  case (Inl f)
  then show ?thesis using assms by (simp add: load_def clear_def Let_def)
next
  case (Inr p)
  obtain ho in1 hm where p: "p = (ho, in1, hm)" by (cases p)
  show ?thesis
  proof (cases ho)
    case None
    then show ?thesis
      using assms load_header_failed [of st inp in1 hm ml m] Inr p by auto
  next
    case (Some h)
    define stride where "stride = ucast (getSerializationLength (m_space st)) + metadata_size h"
    define len where "len = state_count h * stride"
    define r where "r = istream_read (unat len) in1"
    have hd: "loadHeader (m_space st) inp = Inr (Some h, in1, hm)"
      using Inr p Some by simp
    note eq = load_header_ok [OF hd stride_def len_def r_def, of ml m]
    show ?thesis
    proof (cases "len = 0 \<or> \<not> ml (unat len) \<or> in_fail (snd r)")
      case True
      then have "st' = st\<lparr>m_states := []\<rparr>"
        using assms unfolding eq by (auto split: if_splits)
      then show ?thesis by simp
    next
      case False
      then have "deserialize_loop (fst r) stride (unat (state_count h)) 0 (st\<lparr>m_states := []\<rparr>)
                   (free_all (m_states st) m) = Inr (st', m')"
        using assms unfolding eq by (simp split: sum.splits prod.splits)
      from deserialize_loop_shape [OF this] show ?thesis by simp
    qed
  qed
qed




text \<open>
  C5. For signatures as the data model defines them, a stored one (written by \<^verbatim>\<open>store\<close>
  for a state space) and a live one: \<^verbatim>\<open>loadHeader\<close> accepts the stored archive exactly
  when \<^verbatim>\<open>allocPrecomputedStateSampler\<close> accepts the stored signature as the expected one,
  and both do so exactly when the two sequences are equal. An archive after \<^verbatim>\<open>load\<close>
  against a state space yields a sampler for that state space.
\<close>

theorem signature_rule_agrees:
  assumes "wf_signature (computeSignature (m_space stA))"
    and "wf_signature (computeSignature spB)"
    and "store ms stA mA fresh_out = Inr (out, lg)"
  shows "((\<exists>h in1 msgs. loadHeader spB (istream_of (written out)) = Inr (Some h, in1, msgs)) \<longleftrightarrow>
          (\<exists>s. allocPrecomputedStateSampler spB (computeSignature (m_space stA)) states = Inr s)) \<and>
         ((\<exists>s. allocPrecomputedStateSampler spB (computeSignature (m_space stA)) states = Inr s) \<longleftrightarrow>
          computeSignature spB = computeSignature (m_space stA)) \<and>
         (\<forall>stB mB st' m' in' msgs.
            m_space stB = spB \<longrightarrow>
            load ml stB mB (istream_of (written out)) = Inr (st', m', in', msgs) \<longrightarrow>
            getStateSamplerAllocator st' st' spB =
              Inr \<lparr>sampler_space = spB, sampler_states = m_states st'\<rparr>)"
proof -
  let ?A = "computeSignature (m_space stA)" and ?B = "computeSignature spB"
  obtain payload where w: "written out =
       int_bytes OMPL_ARCHIVE_MARKER @ concat (map int_bytes ?A) @
       size_bytes (word_of_nat (length (m_states stA))) @ size_bytes 0 @ payload"
    using store_written [OF assms(3)] by blast
  note hd = loadHeader_archive [OF assms(1,2) w]
  have dec: "(\<exists>h in1 msgs. loadHeader spB (istream_of (written out)) = Inr (Some h, in1, msgs))
             \<longleftrightarrow> ?B = ?A"
    unfolding hd by auto
  have smp: "(\<exists>s. allocPrecomputedStateSampler spB ?A states = Inr s) \<longleftrightarrow> ?B = ?A"
    by (simp add: allocPrecomputedStateSampler_def Let_def)
  have after: "getStateSamplerAllocator st' st' spB =
              Inr \<lparr>sampler_space = spB, sampler_states = m_states st'\<rparr>"
    if "m_space stB = spB" and "load ml stB mB (istream_of (written out)) = Inr (st', m', in', msgs)"
    for stB mB st' m' in' msgs
  proof -
    have "m_space st' = spB" using load_space [OF that(2)] that(1) by simp
    then show ?thesis
      by (simp add: getStateSamplerAllocator_def allocPrecomputedStateSampler_def Let_def)
  qed
  show ?thesis
    using dec smp after by blast
qed

theorem signature_rule_agrees_witness:
  "\<exists>out lg.
     store unlimited \<lparr>m_space = byte_space [1, 7], m_states = [0, 1]\<rparr> two_bytes fresh_out = Inr (out, lg) \<and>
     (\<exists>h in1 msgs. loadHeader (byte_space [1, 7]) (istream_of (written out)) = Inr (Some h, in1, msgs)) \<and>
     (\<exists>s. allocPrecomputedStateSampler (byte_space [1, 7]) [1, 7] [0, 1] = Inr s) \<and>
     \<not> (\<exists>h in1 msgs. loadHeader (byte_space [1, 9]) (istream_of (written out)) = Inr (Some h, in1, msgs)) \<and>
     \<not> (\<exists>s. allocPrecomputedStateSampler (byte_space [1, 9]) [1, 7] [0, 1] = Inr s)"
proof -
  let ?st = "\<lparr>m_space = byte_space [1, 7], m_states = [0, 1]\<rparr>"
  have "\<exists>out lg. store unlimited ?st two_bytes fresh_out = Inr (out, lg)"
    by (simp add: store_def byte_space_def two_bytes_def fresh_out_def ostream_write_def Let_def
          serialize_loop.simps write_at_def unlimited_def)
  then obtain out lg where s: "store unlimited ?st two_bytes fresh_out = Inr (out, lg)"
    by (elim exE)
  have w: "wf_signature (computeSignature (m_space ?st))"
    "wf_signature (computeSignature (byte_space [1, 7]))"
    "wf_signature (computeSignature (byte_space [1, 9]))"
    by (simp_all add: wf_signature_def byte_space_def)
  have c: "computeSignature (m_space ?st) = [1, 7]"
    "computeSignature (byte_space [1, 7]) = [1, 7]" "computeSignature (byte_space [1, 9]) = [1, 9]"
    by (simp_all add: byte_space_def)
  note t7 = signature_rule_agrees [OF w(1) w(2) s, of "[0, 1]", unfolded c]
  note t9 = signature_rule_agrees [OF w(1) w(3) s, of "[0, 1]", unfolded c]
  have "\<exists>s. allocPrecomputedStateSampler (byte_space [1, 7]) [1, 7] [0, 1] = Inr s"
    using t7 [THEN conjunct2, THEN conjunct1] by simp
  moreover from this
  have "\<exists>h in1 msgs. loadHeader (byte_space [1, 7]) (istream_of (written out)) = Inr (Some h, in1, msgs)"
    using t7 [THEN conjunct1] by simp
  moreover have n9: "\<not> (\<exists>s. allocPrecomputedStateSampler (byte_space [1, 9]) [1, 7] [0, 1] = Inr s)"
    using t9 [THEN conjunct2, THEN conjunct1] by simp
  moreover from n9
  have "\<not> (\<exists>h in1 msgs. loadHeader (byte_space [1, 9]) (istream_of (written out)) = Inr (Some h, in1, msgs))"
    using t9 [THEN conjunct1] by simp
  ultimately show ?thesis using s by blast
qed

section \<open>What an accepted header has read\<close>

lemma read_good:
  assumes "in_good (snd (istream_read n s))"
  shows "in_good s \<and> n \<le> length (pending s) \<and>
         istream_read n s = (take n (pending s), s\<lparr>pending := drop n (pending s)\<rparr>)"
  using assms by (auto simp: istream_read_def in_good_def split: if_splits)

lemma sig_loop_True_good:
  "sig_loop sig i len inp = Inr (True, in3) \<Longrightarrow> in_good in3 \<Longrightarrow>
   in_good inp \<and> 4 * (nat len - i) \<le> length (pending inp) \<and>
   pending in3 = drop (4 * (nat len - i)) (pending inp)"
proof (induction sig i len inp rule: sig_loop.induct)
  case (1 sig i len inp)
  show ?case
  proof (cases "in_good inp \<and> int i < len")
    case False
    then have "in3 = inp"
      using "1.prems"(1) by (subst (asm) sig_loop.simps) (simp split: if_splits)
    then show ?thesis using False "1.prems"(2) by auto
  next
    case True
    let ?r = "istream_read 4 inp"
    have fits: "\<not> length sig \<le> i + 1"
      using "1.prems"(1) True by (subst (asm) sig_loop.simps) (auto simp: Let_def)
    have same: "\<not> bytes_int (fst ?r) \<noteq> sig ! (i + 1)"
      using "1.prems"(1) True fits
      by (subst (asm) sig_loop.simps) (auto simp: Let_def split: if_splits)
    have rec: "sig_loop sig (i + 1) len (snd ?r) = Inr (True, in3)"
      using "1.prems"(1) True fits same by (subst (asm) sig_loop.simps) (simp add: Let_def)
    have ih: "in_good (snd ?r) \<and> 4 * (nat len - (i + 1)) \<le> length (pending (snd ?r)) \<and>
              pending in3 = drop (4 * (nat len - (i + 1))) (pending (snd ?r))"
      using "1.IH" [OF True refl refl fits same rec "1.prems"(2)] .
    have rd: "4 \<le> length (pending inp)" "pending (snd ?r) = drop 4 (pending inp)"
      using read_good [of 4 inp] ih by simp_all
    have n: "4 * (nat len - i) = 4 + 4 * (nat len - (i + 1))"
      using True by auto
    have "4 * (nat len - (i + 1)) \<le> length (pending inp) - 4"
      using ih rd by simp
    then have a: "4 + 4 * (nat len - (i + 1)) \<le> length (pending inp)"
      using rd(1) by linarith
    have b: "pending in3 = drop (4 + 4 * (nat len - (i + 1))) (pending inp)"
      using ih rd by (simp add: add.commute)
    show ?thesis
      using True a b unfolding n by blast
  qed
qed

lemma loadHeader_Some_stream:
  assumes "loadHeader sp inp = Inr (Some h, in1, msgs)"
  shows "\<exists>s0 rest in2 in3. in_good inp \<and> computeSignature sp = s0 # rest \<and>
           in_good (snd (istream_read 4 inp)) \<and>
           in2 = snd (istream_read 4 (snd (istream_read 4 inp))) \<and>
           sig_loop (s0 # rest) 0 (sint s0) in2 = Inr (True, in3) \<and>
           load_counts in3 = (Some h, in1, msgs)"
proof -
  have g: "in_good inp"
    using assms by (auto simp: loadHeader_def split: if_splits)
  have mk: "bytes_int (fst (istream_read 4 inp)) = OMPL_ARCHIVE_MARKER"
    using assms g by (auto simp: loadHeader_def Let_def in_good_def in_eof_def split: if_splits)
  obtain s0 rest where sg: "computeSignature sp = s0 # rest"
    using assms g mk
    by (cases "computeSignature sp") (auto simp: loadHeader_def Let_def in_good_def in_eof_def)
  define in1' where "in1' = snd (istream_read 4 inp)"
  define r2 where "r2 = (if in_good in1' then istream_read 4 in1' else ([], in1'))"
  note eq = loadHeader_after_marker [OF g mk sg in1'_def r2_def]
  have s0: "s0 = bytes_int (fst r2)"
    using assms unfolding eq by (simp split: if_splits)
  obtain p where p: "sig_loop (s0 # rest) 0 (sint s0) (snd r2) = Inr p"
    using assms s0 unfolding eq by (cases "sig_loop (s0 # rest) 0 (sint s0) (snd r2)") simp_all
  obtain b in3 where bp: "p = (b, in3)" by (cases p)
  have "b" and lc: "load_counts in3 = (Some h, in1, msgs)"
    using assms s0 p bp unfolding eq by (cases b; simp)+
  then have sl: "sig_loop (s0 # rest) 0 (sint s0) (snd r2) = Inr (True, in3)"
    using p bp by simp
  have "in_good in3" using load_counts_Some [OF lc] by simp
  then have "in_good (snd r2)" using sig_loop_True_good [OF sl] by simp
  then have g1: "in_good in1'"
    by (auto simp: r2_def in_good_def split: if_splits)
  then have "snd r2 = snd (istream_read 4 in1')" by (simp add: r2_def)
  then show ?thesis
    using g sg g1 sl lc unfolding in1'_def by blast
qed

lemma loadHeader_accepts_read_in_full:
  assumes "loadHeader sp inp = Inr (Some h, in1, msgs)"
    and "n = nat (sint (hd (computeSignature sp)))"
  shows "4 + 4 + 4 * n + 8 \<le> length (pending inp) \<and>
         state_count h = bytes_size (take 8 (drop (4 + 4 + 4 * n) (pending inp))) \<and>
         (0 < state_count h \<longrightarrow> 4 + 4 + 4 * n + 8 + 8 \<le> length (pending inp))"
proof -
  obtain s0 rest in3 where g: "in_good inp" and sg: "computeSignature sp = s0 # rest"
    and g1: "in_good (snd (istream_read 4 inp))"
    and sl: "sig_loop (s0 # rest) 0 (sint s0)
               (snd (istream_read 4 (snd (istream_read 4 inp)))) = Inr (True, in3)"
    and lc: "load_counts in3 = (Some h, in1, msgs)"
    using loadHeader_Some_stream [OF assms(1)] by blast
  let ?in1 = "snd (istream_read 4 inp)"
  let ?in2 = "snd (istream_read 4 ?in1)"
  let ?in4 = "snd (istream_read 8 in3)"
  have n: "n = nat (sint s0)" using assms(2) sg by simp
  note c = load_counts_Some [OF lc]
  have g3: "in_good in3" and g4: "in_good ?in4" using c by simp_all
  have s: "in_good ?in2" "4 * n \<le> length (pending ?in2)"
    "pending in3 = drop (4 * n) (pending ?in2)"
    using sig_loop_True_good [OF sl g3] by (simp_all add: n)
  have r1: "4 \<le> length (pending inp)" "pending ?in1 = drop 4 (pending inp)"
    using read_good [OF g1] by simp_all
  have r2: "4 \<le> length (pending ?in1)" "pending ?in2 = drop 4 (pending ?in1)"
    using read_good [OF s(1)] by simp_all
  have r4: "8 \<le> length (pending in3)" "fst (istream_read 8 in3) = take 8 (pending in3)"
    "pending ?in4 = drop 8 (pending in3)"
    using read_good [OF g4] by simp_all
  have p3: "pending in3 = drop (4 + 4 + 4 * n) (pending inp)"
    using s(3) r2(2) r1(2) by (simp add: add.commute)
  have len: "4 + 4 + 4 * n + 8 \<le> length (pending inp)"
    using r4(1) unfolding p3 by simp
  have cnt: "state_count h = bytes_size (take 8 (drop (4 + 4 + 4 * n) (pending inp)))"
    using c r4(2) p3 by simp
  have more: "4 + 4 + 4 * n + 8 + 8 \<le> length (pending inp)" if "0 < state_count h"
  proof -
    have "in_good (snd (istream_read 8 ?in4))" using c that by auto
    then have "8 \<le> length (pending ?in4)" using read_good by blast
    then show ?thesis using r4(3) p3 by simp
  qed
  show ?thesis using len cnt more by blast
qed

lemma load_counts_state_count_absent:
  "length (pending in3) < 8 \<Longrightarrow> fst (load_counts in3) = None"
  by (simp add: load_counts_def istream_read_def in_good_def Let_def)

lemma load_counts_metadata_size_absent:
  assumes "in_good in3" and "pending in3 = size_bytes c @ rest" and "length rest < 8"
  shows "load_counts in3 =
     (if 0 < c then
        (None, in3\<lparr>pending := [], eofbit := True, failbit := True\<rparr>,
         [Error ''Expected state data. Incorrect file format''])
      else (Some \<lparr>state_count = c, metadata_size = bytes_size rest\<rparr>,
            in3\<lparr>pending := [], eofbit := True, failbit := True\<rparr>, []))"
proof -
  have r4: "istream_read 8 in3 = (size_bytes c, in3\<lparr>pending := rest\<rparr>)"
    using assms(1,2) by (rule read_size_good)
  have r5: "istream_read 8 (in3\<lparr>pending := rest\<rparr>) =
            (rest, in3\<lparr>pending := [], eofbit := True, failbit := True\<rparr>)"
    using assms(1,3) by (simp add: istream_read_def)
  have bad: "\<not> in_good (in3\<lparr>pending := [], eofbit := True, failbit := True\<rparr>)"
    by (simp add: in_good_def)
  show ?thesis
    using assms(1) bad by (simp add: load_counts_def r4 r5 Let_def)
qed

lemma loadHeader_signature_matches:
  assumes wf: "wf_signature (computeSignature sp)"
  shows "loadHeader sp (istream_of (int_bytes OMPL_ARCHIVE_MARKER @
                          concat (map int_bytes (computeSignature sp)) @ tail)) =
         Inr (load_counts (istream_of tail))"
proof -
  obtain b bs where B: "computeSignature sp = b # bs"
    using wf by (cases "computeSignature sp") (simp_all add: wf_signature_def)
  let ?in0 = "istream_of (int_bytes OMPL_ARCHIVE_MARKER @ concat (map int_bytes (b # bs)) @ tail)"
  let ?in1 = "istream_of (int_bytes b @ concat (map int_bytes bs) @ tail)"
  let ?in2 = "istream_of (concat (map int_bytes bs) @ tail)"
  have g0: "in_good ?in0" by (simp add: istream_of_def in_good_def)
  have r1: "istream_read 4 ?in0 = (int_bytes OMPL_ARCHIVE_MARKER, ?in1)"
    by (simp add: istream_read_def istream_of_def in_good_def)
  have g1: "in_good ?in1" by (simp add: istream_of_def in_good_def)
  have r2: "istream_read 4 ?in1 = (int_bytes b, ?in2)"
    by (simp add: istream_read_def istream_of_def in_good_def)
  have g2: "in_good ?in2" by (simp add: istream_of_def in_good_def)
  have sl: "sint b = int (0 + length bs)"
    using wf unfolding B by (simp add: wf_signature_Cons sint_word_of_nat)
  have "sig_loop (b # bs) 0 (sint b) ?in2 =
       (if bs = take (length bs) (drop (Suc 0) (b # bs)) then Inr (True, ?in2\<lparr>pending := tail\<rparr>)
        else Inr (False,
               ?in2\<lparr>pending := drop (4 * Suc (agree bs (drop (Suc 0) (b # bs)))) (pending ?in2)\<rparr>))"
    by (rule sig_loop_archive [OF g2 _ sl]) (simp_all add: istream_of_def)
  then have loop: "sig_loop (b # bs) 0 (sint b) ?in2 = Inr (True, istream_of tail)"
    by (simp add: istream_of_def)
  have mk: "bytes_int (fst (istream_read 4 ?in0)) = OMPL_ARCHIVE_MARKER"
    by (simp add: istream_read_def istream_of_def in_good_def)
  show ?thesis
    unfolding B
    using loadHeader_after_marker [OF g0 mk B refl refl] g1 r1 r2 loop by simp
qed

section \<open>Streams that end inside the size fields\<close>

lemma from_le_zeros: "from_le (replicate n 0) = 0"
  by (induction n) simp_all

lemma bytes_size_Nil: "bytes_size [] = 0"
  by (simp add: bytes_size_def zero_filled_def from_le_zeros)

text \<open>
  C6. The specification asks that a stream without the \<^verbatim>\<open>metadata_size\<close> field is
  rejected whatever \<^verbatim>\<open>state_count\<close> is. \<^verbatim>\<open>loadHeader\<close> tests the stream before each of the two reads, and
  after them only under \<^verbatim>\<open>state_count > 0\<close>: a stream that ends right after a
  \<^verbatim>\<open>state_count\<close> of 0 is accepted, with \<^verbatim>\<open>metadata_size\<close> left at its initial 0 and
  nothing logged. (A missing \<^verbatim>\<open>state_count\<close> is always rejected, see
  \<open>load_counts_state_count_absent\<close> and \<open>loadHeader_accepts_read_in_full\<close>; a missing
  \<^verbatim>\<open>metadata_size\<close> is rejected exactly when \<^verbatim>\<open>state_count\<close> is positive, see
  \<open>load_counts_metadata_size_absent\<close>.)
\<close>

theorem loadHeader_missing_metadata_size_accepted:
  "loadHeader (byte_space [1, 7])
     (istream_of (int_bytes OMPL_ARCHIVE_MARKER @ concat (map int_bytes [1, 7]) @ size_bytes 0)) =
   Inr (Some \<lparr>state_count = 0, metadata_size = 0\<rparr>,
        \<lparr>pending = [], eofbit = True, failbit = True, badbit = False\<rparr>, [])"
proof -
  have wf: "wf_signature (computeSignature (byte_space [1, 7]))"
    by (simp add: wf_signature_def byte_space_def)
  have g: "in_good (istream_of (size_bytes 0))"
    and p: "pending (istream_of (size_bytes 0)) = size_bytes 0 @ []"
    by (simp_all add: istream_of_def in_good_def)
  have "load_counts (istream_of (size_bytes 0)) =
        (Some \<lparr>state_count = 0, metadata_size = 0\<rparr>,
         \<lparr>pending = [], eofbit = True, failbit = True, badbit = False\<rparr>, [])"
    using load_counts_metadata_size_absent [OF g p] by (simp add: bytes_size_Nil istream_of_def)
  then show ?thesis
    using loadHeader_signature_matches [OF wf, of "size_bytes 0"] by (simp add: byte_space_def)
qed

theorem loadHeader_missing_metadata_size_accepted_witness:
  "(case loadHeader (byte_space [1, 7])
           (istream_of (int_bytes OMPL_ARCHIVE_MARKER @ concat (map int_bytes [1, 7]) @
                        size_bytes 0)) of
      Inr (Some h, in1, msgs) \<Rightarrow> state_count h = 0 \<and> in_fail in1 \<and> msgs = []
    | _ \<Rightarrow> False)"
  using loadHeader_missing_metadata_size_accepted by (simp add: in_fail_def)

text \<open>
  C7. The specification asks that a stream that fails at any header field makes header
  decoding report a failure. A stream that fails inside the \<^verbatim>\<open>metadata_size\<close> field after a
  \<^verbatim>\<open>state_count\<close> of 0 is accepted: \<^verbatim>\<open>load\<close> returns with nothing logged. (A failure at
  the marker, the signature length, a signature element or \<^verbatim>\<open>state_count\<close> is always
  reported, see \<open>loadHeader_accepts_read_in_full\<close>.)
\<close>

theorem load_partial_metadata_size_accepted:
  "load unlimited \<lparr>m_space = byte_space [1, 7], m_states = []\<rparr> two_bytes
     (istream_of (int_bytes OMPL_ARCHIVE_MARKER @ concat (map int_bytes [1, 7]) @
                  size_bytes 0 @ [1, 2, 3])) =
   Inr (\<lparr>m_space = byte_space [1, 7], m_states = []\<rparr>, two_bytes,
        \<lparr>pending = [], eofbit = True, failbit = True, badbit = False\<rparr>, [])"
proof -
  let ?st = "\<lparr>m_space = byte_space [1, 7], m_states = []\<rparr>"
  let ?inp = "istream_of (int_bytes OMPL_ARCHIVE_MARKER @ concat (map int_bytes [1, 7]) @
                  size_bytes 0 @ [1, 2, 3])"
  let ?end = "\<lparr>pending = [], eofbit = True, failbit = True, badbit = False\<rparr>"
  have wf: "wf_signature (computeSignature (byte_space [1, 7]))"
    by (simp add: wf_signature_def byte_space_def)
  have g: "in_good (istream_of (size_bytes 0 @ [1, 2, 3]))"
    and p: "pending (istream_of (size_bytes 0 @ [1, 2, 3])) = size_bytes 0 @ [1, 2, 3]"
    and l: "length [1, 2, 3 :: byte] < 8"
    by (simp_all add: istream_of_def in_good_def)
  have "load_counts (istream_of (size_bytes 0 @ [1, 2, 3])) =
        (Some \<lparr>state_count = 0, metadata_size = bytes_size [1, 2, 3]\<rparr>, ?end, [])"
    using load_counts_metadata_size_absent [OF g p l] by (simp add: istream_of_def)
  then have "loadHeader (byte_space [1, 7]) ?inp =
        Inr (Some \<lparr>state_count = 0, metadata_size = bytes_size [1, 2, 3]\<rparr>, ?end, [])"
    using loadHeader_signature_matches [OF wf, of "size_bytes 0 @ [1, 2, 3]"]
    by (simp add: byte_space_def)
  then have h: "loadHeader (m_space ?st) ?inp =
        Inr (Some \<lparr>state_count = 0, metadata_size = bytes_size [1, 2, 3]\<rparr>, ?end, [])"
    by simp
  show ?thesis
    using load_header_ok [OF h refl refl refl, of unlimited two_bytes] by simp
qed

theorem load_partial_metadata_size_accepted_witness:
  "(case load unlimited \<lparr>m_space = byte_space [1, 7], m_states = []\<rparr> two_bytes
           (istream_of (int_bytes OMPL_ARCHIVE_MARKER @ concat (map int_bytes [1, 7]) @
                        size_bytes 0 @ [1, 2, 3])) of
      Inr (st', m', in', msgs) \<Rightarrow> m_states st' = [] \<and> in_fail in' \<and> \<not> list_ex is_failure msgs
    | Inl f \<Rightarrow> False)"
  using load_partial_metadata_size_accepted by (simp add: in_fail_def)

end
